theory Spec2Isabelle
  imports Main
begin

section \<open>Data model of \<open>src/main.py\<close>\<close>

text \<open>
  The source represents the three cell contents by the strings \<open>'B'\<close>, \<open>'W'\<close> and
  \<open>'.'\<close>; the player to move is one of the same strings.  The model keeps one type
  for both, as the source does.
\<close>

datatype cell = BLACK | WHITE | EMPTY

type_synonym coord = "int \<times> int"

type_synonym move = "coord \<times> coord"

text \<open>
  \<open>DIRECTIONS = [(-1, 0), (1, 0), (0, -1), (0, 1)]\<close>: up, down, left,
  right.
\<close>

definition DIRECTIONS :: "(int \<times> int) list" where
  "DIRECTIONS = [(-1, 0), (1, 0), (0, -1), (0, 1)]"

text \<open>The attributes of a \<open>ClobberGame\<close> object.\<close>

record ClobberGame =
  rows :: int
  cols :: int
  board :: "cell list list"
  current_player :: cell

text \<open>The exceptions the source raises and catches.\<close>

datatype py_error = IndexError | ValueError

subsection \<open>Python lists\<close>

text \<open>
  \<open>range(n)\<close> for an integer \<open>n\<close>: empty when
  \<open>n \<le> 0\<close>.
\<close>

definition py_range :: "int \<Rightarrow> int list" where
  "py_range n = [0..n - 1]"

text \<open>
  Subscripting a list of length \<open>n\<close> with \<open>i\<close>: an index in \<open>[0, n)\<close> is taken as it
  is, an index in \<open>[-n, 0)\<close> counts from the end, anything else raises \<open>IndexError\<close>
  (\<open>None\<close>).
\<close>

definition py_index :: "nat \<Rightarrow> int \<Rightarrow> nat option" where
  "py_index n i =
     (if 0 \<le> i \<and> i < int n then Some (nat i)
      else if - int n \<le> i \<and> i < 0 then Some (nat (int n + i))
      else None)"

text \<open>\<open>b[i][j]\<close> as an expression.\<close>

definition getitem2 :: "'a list list \<Rightarrow> int \<Rightarrow> int \<Rightarrow> 'a option" where
  "getitem2 b i j =
     (case py_index (length b) i of
        None \<Rightarrow> None
      | Some k \<Rightarrow>
          (case py_index (length (b ! k)) j of
             None \<Rightarrow> None
           | Some l \<Rightarrow> Some (b ! k ! l)))"

text \<open>
  \<open>b[i][j] = v\<close> as a statement.  The rows of the board are separate list objects
  (\<open>init_board\<close> builds a fresh \<open>row\<close> for every \<open>i\<close>), so the assignment changes one
  cell of one row.
\<close>

definition setitem2 :: "'a list list \<Rightarrow> int \<Rightarrow> int \<Rightarrow> 'a \<Rightarrow> 'a list list option" where
  "setitem2 b i j v =
     (case py_index (length b) i of
        None \<Rightarrow> None
      | Some k \<Rightarrow>
          (case py_index (length (b ! k)) j of
             None \<Rightarrow> None
           | Some l \<Rightarrow> Some (b[k := (b ! k)[l := v]])))"

subsection \<open>Construction\<close>

definition init_board :: "int \<Rightarrow> int \<Rightarrow> cell list list" where
  "init_board r c =
     map (\<lambda>i. map (\<lambda>j. if (i + j) mod 2 = 0 then BLACK else WHITE) (py_range c))
       (py_range r)"

text \<open>\<open>ClobberGame(rows, cols)\<close> with both arguments given.\<close>

definition new_game :: "int \<Rightarrow> int \<Rightarrow> ClobberGame" where
  "new_game r c =
     \<lparr>rows = r, cols = c, board = init_board r c, current_player = BLACK\<rparr>"

text \<open>
  The board of every game object has \<open>rows\<close> rows of \<open>cols\<close> cells, and the player to
  move is \<open>BLACK\<close> or \<open>WHITE\<close>: the constructor establishes this, and \<open>make_move\<close>,
  \<open>undo_move\<close> and \<open>switch_player\<close> only assign cells of the board and flip the player.
\<close>

definition wf_game :: "ClobberGame \<Rightarrow> bool" where
  "wf_game s \<longleftrightarrow>
     length (board s) = nat (rows s) \<and>
     list_all (\<lambda>row. length row = nat (cols s)) (board s) \<and>
     (current_player s = BLACK \<or> current_player s = WHITE)"

subsection \<open>Move generation\<close>

text \<open>
  The reads \<open>self.board[i][j]\<close> and \<open>self.board[ni][nj]\<close> of \<open>get_legal_moves\<close> are
  made at indices the loops and the bounds test keep inside \<open>[0, rows) \<times> [0, cols)\<close>,
  so on a board of that size they never raise.
\<close>

definition cell_at :: "cell list list \<Rightarrow> int \<Rightarrow> int \<Rightarrow> cell" where
  "cell_at b i j = b ! nat i ! nat j"

definition get_legal_moves :: "ClobberGame \<Rightarrow> cell \<Rightarrow> move list" where
  "get_legal_moves s player =
     [((i, j), (ni, nj)).
        i \<leftarrow> py_range (rows s),
        j \<leftarrow> py_range (cols s),
        cell_at (board s) i j = player,
        d \<leftarrow> DIRECTIONS,
        (ni, nj) \<leftarrow> [(i + fst d, j + snd d)],
        0 \<le> ni \<and> ni < rows s \<and> 0 \<le> nj \<and> nj < cols s \<and>
        cell_at (board s) ni nj \<noteq> player \<and> cell_at (board s) ni nj \<noteq> EMPTY]"

subsection \<open>Applying and undoing a move\<close>

definition switch_player :: "ClobberGame \<Rightarrow> ClobberGame" where
  "switch_player s =
     s\<lparr>current_player := (if current_player s = BLACK then WHITE else BLACK)\<rparr>"

text \<open>
  \<open>make_move\<close> returns the object after the call together with the exception its
  \<open>try\<close> block caught and printed, if any.  An exception leaves the object as it was
  when the exception was raised.
\<close>

definition make_move :: "ClobberGame \<Rightarrow> move \<Rightarrow> py_error option \<times> ClobberGame" where
  "make_move s m =
     (case m of ((i, j), (ni, nj)) \<Rightarrow>
        (case getitem2 (board s) i j of
           None \<Rightarrow> (Some IndexError, s)
         | Some c \<Rightarrow>
             if c \<noteq> current_player s then (Some ValueError, s)
             else
               (case setitem2 (board s) ni nj c of
                  None \<Rightarrow> (Some IndexError, s)
                | Some b1 \<Rightarrow>
                    (case setitem2 b1 i j EMPTY of
                       None \<Rightarrow> (Some IndexError, s\<lparr>board := b1\<rparr>)
                     | Some b2 \<Rightarrow> (None, switch_player (s\<lparr>board := b2\<rparr>))))))"

definition undo_move :: "ClobberGame \<Rightarrow> move \<Rightarrow> py_error option \<times> ClobberGame" where
  "undo_move s m =
     (case m of ((i, j), (ni, nj)) \<Rightarrow>
        (case getitem2 (board s) ni nj of
           None \<Rightarrow> (Some IndexError, s)
         | Some c \<Rightarrow>
             (case setitem2 (board s) i j c of
                None \<Rightarrow> (Some IndexError, s)
              | Some b1 \<Rightarrow>
                  (case getitem2 b1 i j of
                     None \<Rightarrow> (Some IndexError, s\<lparr>board := b1\<rparr>)
                   | Some c' \<Rightarrow>
                       (case setitem2 b1 ni nj (if c' = BLACK then WHITE else BLACK) of
                          None \<Rightarrow> (Some IndexError, s\<lparr>board := b1\<rparr>)
                        | Some b2 \<Rightarrow> (None, switch_player (s\<lparr>board := b2\<rparr>)))))))"

subsection \<open>Scores\<close>

text \<open>
  The search computes with Python integers and the two floats \<open>-math.inf\<close> and
  \<open>math.inf\<close>; Python compares an integer with an infinity exactly.
\<close>

datatype score = NegInf | Fin int | PosInf

instantiation score :: linorder
begin

fun less_eq_score :: "score \<Rightarrow> score \<Rightarrow> bool" where
  "less_eq_score NegInf y = True"
| "less_eq_score (Fin a) NegInf = False"
| "less_eq_score (Fin a) (Fin b) = (a \<le> b)"
| "less_eq_score (Fin a) PosInf = True"
| "less_eq_score PosInf PosInf = True"
| "less_eq_score PosInf y = False"

definition less_score :: "score \<Rightarrow> score \<Rightarrow> bool" where
  "less_score x y \<longleftrightarrow> x \<le> y \<and> \<not> y \<le> x"

instance
proof
  fix x y z :: score
  show "(x < y) = (x \<le> y \<and> \<not> y \<le> x)"
    by (simp add: less_score_def)
  show "x \<le> x"
    by (cases x) auto
  show "x \<le> y \<Longrightarrow> y \<le> z \<Longrightarrow> x \<le> z"
    by (cases x; cases y; cases z) auto
  show "x \<le> y \<Longrightarrow> y \<le> x \<Longrightarrow> x = y"
    by (cases x; cases y) auto
  show "x \<le> y \<or> y \<le> x"
    by (cases x; cases y) auto
qed

end

subsection \<open>Evaluation and the terminal test\<close>

text \<open>\<open>sum(row.count(c) for row in self.board)\<close>\<close>

definition countOf :: "cell list list \<Rightarrow> cell \<Rightarrow> int" where
  "countOf b c = (\<Sum>row\<leftarrow>b. int (count_list row c))"

definition evaluate :: "ClobberGame \<Rightarrow> int" where
  "evaluate s =
     (let black_count = countOf (board s) BLACK;
          white_count = countOf (board s) WHITE
      in if current_player s = BLACK then black_count - white_count
         else white_count - black_count)"

definition is_terminal :: "ClobberGame \<Rightarrow> bool" where
  "is_terminal s \<longleftrightarrow> get_legal_moves s BLACK = [] \<and> get_legal_moves s WHITE = []"

subsection \<open>Alpha-beta search\<close>

text \<open>
  The search works on the one game object: it applies a move, recurses, and undoes
  the move.  The model threads the object through the search, so every function
  returns the object as the call leaves it; what \<open>make_move\<close> and \<open>undo_move\<close> print
  during a search is dropped.  A search that does not return is \<open>None\<close>; the
  interpreter's limit on the recursion depth is not modelled.

  The two \<open>for\<close> loops of \<open>alpha_beta\<close> run over the list of moves generated before
  the first iteration.  \<open>rec\<close> is the recursive call.
\<close>

type_synonym search =
  "ClobberGame \<Rightarrow> score \<Rightarrow> score \<Rightarrow> (score \<times> ClobberGame) option"

fun max_loop ::
  "search \<Rightarrow> move list \<Rightarrow> ClobberGame \<Rightarrow> score \<Rightarrow> score \<Rightarrow> score \<Rightarrow>
   (score \<times> ClobberGame) option" where
  "max_loop rec [] s max_eval alpha beta = Some (max_eval, s)"
| "max_loop rec (m # ms) s max_eval alpha beta =
     Option.bind (rec (snd (make_move s m)) alpha beta)
       (\<lambda>(eval, s').
          (let s'' = snd (undo_move s' m);
               max_eval' = max max_eval eval;
               alpha' = max alpha eval
           in if beta \<le> alpha' then Some (max_eval', s'')
              else max_loop rec ms s'' max_eval' alpha' beta))"

fun min_loop ::
  "search \<Rightarrow> move list \<Rightarrow> ClobberGame \<Rightarrow> score \<Rightarrow> score \<Rightarrow> score \<Rightarrow>
   (score \<times> ClobberGame) option" where
  "min_loop rec [] s min_eval alpha beta = Some (min_eval, s)"
| "min_loop rec (m # ms) s min_eval alpha beta =
     Option.bind (rec (snd (make_move s m)) alpha beta)
       (\<lambda>(eval, s').
          (let s'' = snd (undo_move s' m);
               min_eval' = min min_eval eval;
               beta' = min beta eval
           in if beta' \<le> alpha then Some (min_eval', s'')
              else min_loop rec ms s'' min_eval' alpha beta'))"

lemma max_loop_mono [partial_function_mono]:
  assumes "\<And>s a b. mono_option (\<lambda>f. F f s a b)"
  shows "mono_option (\<lambda>f. max_loop (F f) ms s me a b)"
proof (induction ms arbitrary: s me a b)
  case Nil
  show ?case by (simp add: option.const_mono)
next
  case (Cons m ms)
  show ?case
    unfolding max_loop.simps Let_def case_prod_unfold
    by (intro partial_function_mono assms Cons.IH)
qed

lemma min_loop_mono [partial_function_mono]:
  assumes "\<And>s a b. mono_option (\<lambda>f. F f s a b)"
  shows "mono_option (\<lambda>f. min_loop (F f) ms s me a b)"
proof (induction ms arbitrary: s me a b)
  case Nil
  show ?case by (simp add: option.const_mono)
next
  case (Cons m ms)
  show ?case
    unfolding min_loop.simps Let_def case_prod_unfold
    by (intro partial_function_mono assms Cons.IH)
qed

partial_function (option) alpha_beta ::
  "ClobberGame \<Rightarrow> int \<Rightarrow> score \<Rightarrow> score \<Rightarrow> bool \<Rightarrow> (score \<times> ClobberGame) option" where
  "alpha_beta s depth alpha beta maximizing_player =
     (if depth = 0 \<or> is_terminal s then Some (Fin (evaluate s), s)
      else if maximizing_player then
        max_loop (\<lambda>s' a b. alpha_beta s' (depth - 1) a b False)
          (get_legal_moves s (current_player s)) s NegInf alpha beta
      else
        min_loop (\<lambda>s' a b. alpha_beta s' (depth - 1) a b True)
          (get_legal_moves s (current_player s)) s PosInf alpha beta)"

declare alpha_beta.simps [code]

subsection \<open>Move selection\<close>

text \<open>
  The loop of \<open>ai_move\<close>; \<open>alpha\<close> and \<open>beta\<close> stay \<open>-math.inf\<close> and \<open>math.inf\<close>
  throughout.  The player compared with \<open>BLACK\<close> and \<open>WHITE\<close> is the one of the
  object after the move was undone.
\<close>

fun ai_loop ::
  "search \<Rightarrow> move list \<Rightarrow> ClobberGame \<Rightarrow> move option \<Rightarrow> score \<Rightarrow>
   (move option \<times> ClobberGame) option" where
  "ai_loop rec [] s best_move best_value = Some (best_move, s)"
| "ai_loop rec (m # ms) s best_move best_value =
     Option.bind (rec (snd (make_move s m)) NegInf PosInf)
       (\<lambda>(move_value, s').
          (let s'' = snd (undo_move s' m)
           in if current_player s'' = BLACK \<and> best_value < move_value
              then ai_loop rec ms s'' (Some m) move_value
              else if current_player s'' = WHITE \<and> move_value < best_value
              then ai_loop rec ms s'' (Some m) move_value
              else ai_loop rec ms s'' best_move best_value))"

definition ai_move :: "ClobberGame \<Rightarrow> int \<Rightarrow> (move option \<times> ClobberGame) option" where
  "ai_move s depth =
     ai_loop (\<lambda>s' a b. alpha_beta s' (depth - 1) a b False)
       (get_legal_moves s (current_player s)) s None
       (if current_player s = BLACK then NegInf else PosInf)"

subsection \<open>Auxiliary notions for the properties\<close>

text \<open>A coordinate inside \<open>[0, rows) \<times> [0, cols)\<close>.\<close>

definition in_bounds :: "ClobberGame \<Rightarrow> coord \<Rightarrow> bool" where
  "in_bounds s p \<longleftrightarrow> 0 \<le> fst p \<and> fst p < rows s \<and> 0 \<le> snd p \<and> snd p < cols s"

text \<open>
  The board after one cell was assigned, with both indices already natural numbers.
\<close>

definition upd :: "'a list list \<Rightarrow> nat \<Rightarrow> nat \<Rightarrow> 'a \<Rightarrow> 'a list list" where
  "upd b k l v = b[k := (b ! k)[l := v]]"

text \<open>The other colour.\<close>

definition opponent :: "cell \<Rightarrow> cell" where
  "opponent p = (if p = BLACK then WHITE else BLACK)"

text \<open>
  The board after the two assignments of \<open>make_move\<close>, for a move inside
  the grid made by player \<open>p\<close>.
\<close>

definition moved_board :: "cell list list \<Rightarrow> move \<Rightarrow> cell \<Rightarrow> cell list list" where
  "moved_board b m p =
     (case m of ((i, j), (ni, nj)) \<Rightarrow>
        upd (upd b (nat ni) (nat nj) p) (nat i) (nat j) EMPTY)"

text \<open>\<open>countOf(BLACK) + countOf(WHITE)\<close>\<close>

definition stone_count :: "ClobberGame \<Rightarrow> int" where
  "stone_count s = countOf (board s) BLACK + countOf (board s) WHITE"

text \<open>
  The objects a game can hold: the one the constructor builds, and the ones legal moves
  of the player to move lead to (in the game loop and inside the search).
\<close>

inductive reachable :: "ClobberGame \<Rightarrow> bool" where
  start: "reachable (new_game r c)"
| step: "reachable s \<Longrightarrow> m \<in> set (get_legal_moves s (current_player s)) \<Longrightarrow>
     reachable (snd (make_move s m))"

text \<open>
  A legal move of \<open>player\<close> as the specification words it: the source holds
  a stone of \<open>player\<close>, the destination is an orthogonal neighbour inside
  the grid and holds a stone of the opponent.
\<close>

definition is_legal :: "ClobberGame \<Rightarrow> cell \<Rightarrow> move \<Rightarrow> bool" where
  "is_legal s player m \<longleftrightarrow>
     (case m of ((i, j), (ni, nj)) \<Rightarrow>
        in_bounds s (i, j) \<and> cell_at (board s) i j = player \<and>
        \<bar>ni - i\<bar> + \<bar>nj - j\<bar> = 1 \<and> in_bounds s (ni, nj) \<and>
        cell_at (board s) ni nj = opponent player)"

text \<open>The position of a move's direction in the order up, down, left, right.\<close>

definition dir_rank :: "move \<Rightarrow> nat" where
  "dir_rank m =
     (case m of ((i, j), (ni, nj)) \<Rightarrow>
        if ni < i then 0 else if i < ni then 1 else if nj < j then 2 else 3)"

text \<open>Row-major order over the source cells, then the order of the directions.\<close>

definition move_before :: "move \<Rightarrow> move \<Rightarrow> bool" where
  "move_before m m' \<longleftrightarrow>
     fst (fst m) < fst (fst m') \<or>
     fst (fst m) = fst (fst m') \<and>
       (snd (fst m) < snd (fst m') \<or>
        snd (fst m) = snd (fst m') \<and> dir_rank m < dir_rank m')"

text \<open>
  The moves the innermost loop of \<open>get_legal_moves\<close> appends for one source
  cell.
\<close>

definition cell_moves :: "ClobberGame \<Rightarrow> cell \<Rightarrow> int \<Rightarrow> int \<Rightarrow> move list" where
  "cell_moves s player i j =
     [((i, j), (ni, nj)).
        d \<leftarrow> DIRECTIONS,
        (ni, nj) \<leftarrow> [(i + fst d, j + snd d)],
        0 \<le> ni \<and> ni < rows s \<and> 0 \<le> nj \<and> nj < cols s \<and>
        cell_at (board s) ni nj \<noteq> player \<and> cell_at (board s) ni nj \<noteq> EMPTY]"

text \<open>
  The running maximum and minimum over all children, from the initial accumulators
  \<open>-\<infinity>\<close> and \<open>+\<infinity>\<close>.
\<close>

primrec maxs :: "score list \<Rightarrow> score" where
  "maxs [] = NegInf"
| "maxs (v # vs) = max v (maxs vs)"

primrec mins :: "score list \<Rightarrow> score" where
  "mins [] = PosInf"
| "mins (v # vs) = min v (mins vs)"

text \<open>
  Exhaustive minimax without pruning, following the specification: depth 0 or a
  terminal position is scored by \<open>evaluate\<close>; otherwise every legal move of
  the player to move is applied to a copy of the state, the child is searched one ply
  less deep with the roles exchanged, and the maximum (minimum) of all child values is
  returned. Nothing is undone and no window is kept.
\<close>

fun minimax :: "nat \<Rightarrow> ClobberGame \<Rightarrow> bool \<Rightarrow> score" where
  "minimax 0 s maximizing = Fin (evaluate s)"
| "minimax (Suc d) s maximizing =
     (if is_terminal s then Fin (evaluate s)
      else if maximizing then
        maxs (map (\<lambda>m. minimax d (snd (make_move s m)) False)
          (get_legal_moves s (current_player s)))
      else
        mins (map (\<lambda>m. minimax d (snd (make_move s m)) True)
          (get_legal_moves s (current_player s))))"

text \<open>
  What a search with window \<open>(a, b)\<close> may return as \<open>r\<close> when
  the exact value is \<open>v\<close>: at or below \<open>a\<close> it is an upper
  bound of \<open>v\<close>, at or above \<open>b\<close> a lower bound, and strictly
  inside the window it is exact.
\<close>

definition fail_soft :: "score \<Rightarrow> score \<Rightarrow> score \<Rightarrow> score \<Rightarrow> bool" where
  "fail_soft a b v r \<longleftrightarrow>
     (r \<le> a \<longrightarrow> v \<le> r) \<and> (a < r \<and> r < b \<longrightarrow> r = v) \<and> (b \<le> r \<longrightarrow> r \<le> v)"

section \<open>Properties\<close>

subsection \<open>Lists, indices and boards\<close>

lemma set_py_range: "set (py_range n) = {i. 0 \<le> i \<and> i < n}"
  by (auto simp: py_range_def)

lemma py_index_in_range: "0 \<le> i \<Longrightarrow> i < int n \<Longrightarrow> py_index n i = Some (nat i)"
  by (simp add: py_index_def)

lemma wf_row_index:
  assumes "wf_game s" "0 \<le> i" "i < rows s"
  shows "nat i < length (board s)" "length (board s ! nat i) = nat (cols s)"
  using assms by (auto simp: wf_game_def list_all_length)

lemma getitem2_wf:
  assumes "wf_game s" "0 \<le> i" "i < rows s" "0 \<le> j" "j < cols s"
  shows "getitem2 (board s) i j = Some (cell_at (board s) i j)"
  using assms wf_row_index[OF assms(1-3)]
  by (simp add: getitem2_def py_index_in_range cell_at_def wf_game_def)

lemma length_upd: "length (upd b k l v) = length b"
  by (simp add: upd_def)

lemma length_upd_row: "length (upd b k l v ! k') = length (b ! k')"
proof (cases "k < length b")
  case True
  then show ?thesis by (cases "k' = k") (simp_all add: upd_def)
next
  case False
  then have "upd b k l v = b" by (simp add: upd_def list_update_beyond)
  then show ?thesis by simp
qed

lemma nth_upd:
  "k' < length b \<Longrightarrow> l' < length (b ! k') \<Longrightarrow>
   upd b k l v ! k' ! l' = (if k' = k \<and> l' = l then v else b ! k' ! l')"
  by (cases "k' = k") (auto simp: upd_def)

lemma setitem2_in_range:
  assumes "0 \<le> i" "nat i < length b" "0 \<le> j" "nat j < length (b ! nat i)"
  shows "setitem2 b i j v = Some (upd b (nat i) (nat j) v)"
  using assms by (simp add: setitem2_def py_index_in_range upd_def)

lemma getitem2_in_range:
  assumes "0 \<le> i" "nat i < length b" "0 \<le> j" "nat j < length (b ! nat i)"
  shows "getitem2 b i j = Some (b ! nat i ! nat j)"
  using assms by (simp add: getitem2_def py_index_in_range)

lemma board_eqI:
  assumes "length b = length b'"
    and "\<And>k. k < length b \<Longrightarrow> length (b ! k) = length (b' ! k)"
    and "\<And>k l. k < length b \<Longrightarrow> l < length (b ! k) \<Longrightarrow> b ! k ! l = b' ! k ! l"
  shows "b = b'"
  using assms by (auto intro!: nth_equalityI)

lemma legal_move_iff:
  "((i, j), (ni, nj)) \<in> set (get_legal_moves s p) \<longleftrightarrow>
     0 \<le> i \<and> i < rows s \<and> 0 \<le> j \<and> j < cols s \<and> cell_at (board s) i j = p \<and>
     (ni = i - 1 \<and> nj = j \<or> ni = i + 1 \<and> nj = j \<or>
      ni = i \<and> nj = j - 1 \<or> ni = i \<and> nj = j + 1) \<and>
     0 \<le> ni \<and> ni < rows s \<and> 0 \<le> nj \<and> nj < cols s \<and>
     cell_at (board s) ni nj \<noteq> p \<and> cell_at (board s) ni nj \<noteq> EMPTY"
  by (auto simp: get_legal_moves_def set_py_range DIRECTIONS_def split: if_splits
      intro!: exI[of _ i] bexI[of _ j])

subsection \<open>The initial board\<close>

lemma nth_py_range: "k < nat n \<Longrightarrow> py_range n ! k = int k"
  by (simp add: py_range_def)

lemma length_py_range: "length (py_range n) = nat n"
  by (simp add: py_range_def)

lemma wf_new_game: "wf_game (new_game r c)"
  by (simp add: wf_game_def new_game_def init_board_def length_py_range list_all_iff)

lemma init_board_cell:
  assumes "0 \<le> i" "i < r" "0 \<le> j" "j < c"
  shows "getitem2 (init_board r c) i j = Some (if (i + j) mod 2 = 0 then BLACK else WHITE)"
proof -
  have "nat i < nat r" "nat j < nat c" using assms by auto
  then show ?thesis
    using assms
    by (simp add: getitem2_def init_board_def length_py_range py_index_in_range nth_py_range)
qed

text \<open>
  Claim C9.  For \<open>rows \<ge> 2\<close> and \<open>cols \<ge> 2\<close> the board built at construction holds,
  at every cell \<open>(i, j)\<close> of the grid, \<open>BLACK\<close> exactly when \<open>i + j\<close> is even and
  \<open>WHITE\<close> exactly when \<open>i + j\<close> is odd; no cell starts \<open>EMPTY\<close>.
\<close>

theorem init_board_checkerboard:
  assumes "2 \<le> r" "2 \<le> c" "0 \<le> i" "i < r" "0 \<le> j" "j < c"
  shows "\<exists>x. getitem2 (board (new_game r c)) i j = Some x \<and>
           (x = BLACK \<longleftrightarrow> even (i + j)) \<and>
           (x = WHITE \<longleftrightarrow> odd (i + j)) \<and>
           x \<noteq> EMPTY"
  using init_board_cell[OF assms(3-6)]
  by (auto simp: new_game_def even_iff_mod_2_eq_zero)

theorem init_board_checkerboard_witness:
  "getitem2 (board (new_game 2 3)) 1 2 = Some WHITE \<and>
   getitem2 (board (new_game 2 3)) 1 1 = Some BLACK"
  using init_board_checkerboard[of 2 3 1 2] init_board_checkerboard[of 2 3 1 1]
  by auto

subsection \<open>Applying and undoing a legal move\<close>

lemma legal_moveD:
  assumes "wf_game s" "((i, j), (ni, nj)) \<in> set (get_legal_moves s p)"
  shows "0 \<le> i" "0 \<le> j" "0 \<le> ni" "0 \<le> nj"
    "nat i < length (board s)" "nat j < length (board s ! nat i)"
    "nat ni < length (board s)" "nat nj < length (board s ! nat ni)"
    "board s ! nat i ! nat j = p"
    "board s ! nat ni ! nat nj \<noteq> p" "board s ! nat ni ! nat nj \<noteq> EMPTY"
    "nat i \<noteq> nat ni \<or> nat j \<noteq> nat nj"
proof -
  from assms(2) have b: "0 \<le> i" "i < rows s" "0 \<le> j" "j < cols s"
    "0 \<le> ni" "ni < rows s" "0 \<le> nj" "nj < cols s"
    and c: "cell_at (board s) i j = p" "cell_at (board s) ni nj \<noteq> p"
      "cell_at (board s) ni nj \<noteq> EMPTY"
    by (simp_all add: legal_move_iff)
  show "0 \<le> i" "0 \<le> j" "0 \<le> ni" "0 \<le> nj" using b by simp_all
  show "nat i < length (board s)" "nat j < length (board s ! nat i)"
    "nat ni < length (board s)" "nat nj < length (board s ! nat ni)"
    using wf_row_index[OF assms(1) b(1,2)] wf_row_index[OF assms(1) b(5,6)] b by simp_all
  show "board s ! nat i ! nat j = p" "board s ! nat ni ! nat nj \<noteq> p"
    "board s ! nat ni ! nat nj \<noteq> EMPTY"
    using c by (simp_all add: cell_at_def)
  show "nat i \<noteq> nat ni \<or> nat j \<noteq> nat nj"
    using c by (auto simp: cell_at_def)
qed

lemma make_move_legal:
  assumes "wf_game s" "m \<in> set (get_legal_moves s (current_player s))"
  shows "make_move s m =
    (None, switch_player (s\<lparr>board := moved_board (board s) m (current_player s)\<rparr>))"
proof -
  obtain i j ni nj where m: "m = ((i, j), (ni, nj))" by (metis prod.exhaust)
  note d = legal_moveD[OF assms(1) assms(2)[unfolded m]]
  have g: "getitem2 (board s) i j = Some (current_player s)"
    using d by (simp add: getitem2_in_range)
  have s1: "setitem2 (board s) ni nj (current_player s) =
      Some (upd (board s) (nat ni) (nat nj) (current_player s))"
    using d by (simp add: setitem2_in_range)
  have s2: "setitem2 (upd (board s) (nat ni) (nat nj) (current_player s)) i j EMPTY =
      Some (upd (upd (board s) (nat ni) (nat nj) (current_player s)) (nat i) (nat j) EMPTY)"
    using d by (simp add: setitem2_in_range length_upd length_upd_row)
  show ?thesis
    by (simp add: make_move_def m g s1 s2 moved_board_def)
qed

lemma wf_game_moved:
  assumes "wf_game s"
  shows "wf_game (switch_player (s\<lparr>board := moved_board (board s) m (current_player s)\<rparr>))"
  using assms
  by (cases m)
    (auto simp: wf_game_def switch_player_def moved_board_def length_upd length_upd_row
      list_all_length)

lemma moved_board_undone:
  assumes "wf_game s" "m = ((i, j), (ni, nj))"
    "m \<in> set (get_legal_moves s (current_player s))"
  shows "upd (upd (moved_board (board s) m (current_player s)) (nat i) (nat j)
             (current_player s)) (nat ni) (nat nj) (opponent (current_player s)) = board s"
proof (rule board_eqI)
  note d = legal_moveD[OF assms(1) assms(3)[unfolded assms(2)]]
  let ?p = "current_player s"
  let ?b = "upd (upd (moved_board (board s) m ?p) (nat i) (nat j) ?p) (nat ni) (nat nj)
    (opponent ?p)"
  show "length ?b = length (board s)"
    by (simp add: moved_board_def assms(2) length_upd)
  fix k assume "k < length ?b"
  show "length (?b ! k) = length (board s ! k)"
    by (simp add: moved_board_def assms(2) length_upd_row)
  fix l assume "l < length (?b ! k)"
  then have kl: "k < length (board s)" "l < length (board s ! k)"
    using \<open>k < length ?b\<close> by (simp_all add: moved_board_def assms(2) length_upd length_upd_row)
  have opp: "board s ! nat ni ! nat nj = opponent ?p"
    using d(10,11) assms(1) by (cases "board s ! nat ni ! nat nj") (auto simp: opponent_def wf_game_def)
  show "?b ! k ! l = board s ! k ! l"
    using kl d opp
    by (auto simp: moved_board_def assms(2) nth_upd length_upd length_upd_row)
qed

lemma switch_back:
  "p = BLACK \<or> p = WHITE \<Longrightarrow>
   (if (if p = BLACK then WHITE else BLACK) = BLACK then WHITE else BLACK) = p"
  by auto

lemma undo_move_moved:
  assumes "wf_game s" "((i, j), (ni, nj)) \<in> set (get_legal_moves s (current_player s))"
  shows "undo_move
     (switch_player (s\<lparr>board := moved_board (board s) ((i, j), (ni, nj)) (current_player s)\<rparr>))
     ((i, j), (ni, nj)) = (None, s)"
proof -
  note d = legal_moveD[OF assms]
  let ?p = "current_player s"
  let ?m = "((i, j), (ni, nj))"
  let ?b2 = "moved_board (board s) ?m ?p"
  let ?o = "if ?p = BLACK then WHITE else BLACK"
  have len: "length ?b2 = length (board s)" "\<And>k. length (?b2 ! k) = length (board s ! k)"
    by (simp_all add: moved_board_def length_upd length_upd_row)
  have g1: "getitem2 ?b2 ni nj = Some ?p"
    using d by (auto simp: getitem2_in_range len moved_board_def nth_upd length_upd length_upd_row)
  have s1: "setitem2 ?b2 i j ?p = Some (upd ?b2 (nat i) (nat j) ?p)"
    using d by (simp add: setitem2_in_range len)
  have g2: "getitem2 (upd ?b2 (nat i) (nat j) ?p) i j = Some ?p"
    using d by (simp add: getitem2_in_range len nth_upd length_upd length_upd_row)
  have s2: "setitem2 (upd ?b2 (nat i) (nat j) ?p) ni nj ?o =
      Some (upd (upd ?b2 (nat i) (nat j) ?p) (nat ni) (nat nj) ?o)"
    using d by (simp add: setitem2_in_range len length_upd length_upd_row)
  have b: "upd (upd ?b2 (nat i) (nat j) ?p) (nat ni) (nat nj) ?o = board s"
    using moved_board_undone[OF assms(1) refl assms(2)] by (simp add: opponent_def)
  have p: "?p = BLACK \<or> ?p = WHITE" using assms(1) by (simp add: wf_game_def)
  show ?thesis
    unfolding undo_move_def switch_player_def
    by (simp add: g1 s1 g2 s2 b switch_back[OF p])
qed

lemma undo_move_legal:
  assumes "wf_game s" "m \<in> set (get_legal_moves s (current_player s))"
  shows "undo_move (snd (make_move s m)) m = (None, s)"
proof -
  obtain i j ni nj where m: "m = ((i, j), (ni, nj))" by (metis prod.exhaust)
  show ?thesis
    using undo_move_moved[OF assms(1) assms(2)[unfolded m]] make_move_legal[OF assms]
    by (simp add: m)
qed

subsection \<open>Stone counts\<close>

lemma count_list_update_nat:
  "l < length xs \<Longrightarrow>
   count_list (xs[l := v]) c + (if xs ! l = c then 1 else 0) =
     count_list xs c + (if v = c then 1 else 0)"
proof (induction xs arbitrary: l)
  case Nil
  then show ?case by simp
next
  case (Cons x xs)
  show ?case
  proof (cases l)
    case 0
    then show ?thesis by simp
  next
    case (Suc l')
    with Cons.prems have "l' < length xs" by simp
    from Cons.IH[OF this] show ?thesis by (auto simp: Suc split: if_splits)
  qed
qed

lemma count_list_update:
  assumes "l < length xs"
  shows "int (count_list (xs[l := v]) c) =
     int (count_list xs c) - (if xs ! l = c then 1 else 0) + (if v = c then 1 else 0)"
  using count_list_update_nat[OF assms, of v c] by (simp split: if_splits)

lemma sum_list_map_update:
  fixes f :: "'a \<Rightarrow> int"
  shows "k < length xs \<Longrightarrow>
    sum_list (map f (xs[k := y])) = sum_list (map f xs) - f (xs ! k) + f y"
proof (induction xs arbitrary: k)
  case Nil
  then show ?case by simp
next
  case (Cons x xs)
  then show ?case by (cases k) auto
qed

lemma countOf_upd:
  assumes "k < length b" "l < length (b ! k)"
  shows "countOf (upd b k l v) c =
    countOf b c - (if b ! k ! l = c then 1 else 0) + (if v = c then 1 else 0)"
  using assms
  by (simp add: countOf_def upd_def sum_list_map_update count_list_update)

lemma countOf_moved:
  assumes "wf_game s" "((i, j), (ni, nj)) \<in> set (get_legal_moves s (current_player s))"
    and "c \<noteq> EMPTY"
  shows "countOf (moved_board (board s) ((i, j), (ni, nj)) (current_player s)) c =
    countOf (board s) c - (if c = cell_at (board s) ni nj then 1 else 0)"
proof -
  note d = legal_moveD[OF assms(1,2)]
  have p: "current_player s \<noteq> EMPTY" using assms(1) by (auto simp: wf_game_def)
  show ?thesis
    using d p assms(3)
    by (auto simp: moved_board_def countOf_upd length_upd length_upd_row nth_upd cell_at_def)
qed

lemma stone_count_moved:
  assumes "wf_game s" "m \<in> set (get_legal_moves s (current_player s))"
  shows "stone_count (snd (make_move s m)) = stone_count s - 1"
proof -
  obtain i j ni nj where m: "m = ((i, j), (ni, nj))" by (metis prod.exhaust)
  note d = legal_moveD[OF assms(1) assms(2)[unfolded m]]
  have "cell_at (board s) ni nj = BLACK \<or> cell_at (board s) ni nj = WHITE"
    using d(11) by (cases "cell_at (board s) ni nj") (auto simp: cell_at_def)
  then show ?thesis
    using countOf_moved[OF assms(1) assms(2)[unfolded m], of BLACK]
      countOf_moved[OF assms(1) assms(2)[unfolded m], of WHITE]
    by (auto simp: make_move_legal[OF assms, unfolded m] stone_count_def switch_player_def m)
qed

subsection \<open>Claims about make_move and undo_move\<close>

lemma wf_game_make_move:
  assumes "wf_game s" "m \<in> set (get_legal_moves s (current_player s))"
  shows "wf_game (snd (make_move s m))"
  by (simp add: make_move_legal[OF assms] wf_game_moved[OF assms(1)])

lemma reachable_wf: "reachable s \<Longrightarrow> wf_game s"
  by (induction rule: reachable.induct) (simp_all add: wf_new_game wf_game_make_move)

text \<open>
  Claim C1.  In every reachable game state, for every move \<open>m\<close> of
  \<open>get_legal_moves(current_player)\<close>, \<open>make_move(m)\<close> succeeds and \<open>undo_move(m)\<close> after it
  gives back the original object: the same board contents and the same player to move.
\<close>

theorem apply_undo_roundtrip:
  assumes "reachable s" "m \<in> set (get_legal_moves s (current_player s))"
  shows "fst (make_move s m) = None \<and> undo_move (snd (make_move s m)) m = (None, s)"
  using make_move_legal[OF reachable_wf[OF assms(1)] assms(2)]
    undo_move_legal[OF reachable_wf[OF assms(1)] assms(2)]
  by simp

lemma legal_moves_2x3_after_first:
  "get_legal_moves (snd (make_move (new_game 2 3) ((0, 0), (0, 1)))) WHITE =
     [((1, 0), (1, 1)), ((1, 2), (0, 2)), ((1, 2), (1, 1))]"
  by code_simp

lemma player_2x3_after_first:
  "current_player (snd (make_move (new_game 2 3) ((0, 0), (0, 1)))) = WHITE"
  by code_simp

lemma legal_moves_2x3_start:
  "get_legal_moves (new_game 2 3) BLACK =
    [((0, 0), (1, 0)), ((0, 0), (0, 1)), ((0, 2), (1, 2)), ((0, 2), (0, 1)),
     ((1, 1), (0, 1)), ((1, 1), (1, 0)), ((1, 1), (1, 2))]"
  by code_simp

theorem apply_undo_roundtrip_witness:
  "reachable (snd (make_move (new_game 2 3) ((0, 0), (0, 1)))) \<and>
   ((1, 2), (1, 1)) \<in> set (get_legal_moves (snd (make_move (new_game 2 3) ((0, 0), (0, 1))))
       (current_player (snd (make_move (new_game 2 3) ((0, 0), (0, 1)))))) \<and>
   undo_move
     (snd (make_move (snd (make_move (new_game 2 3) ((0, 0), (0, 1)))) ((1, 2), (1, 1))))
     ((1, 2), (1, 1)) =
   (None, snd (make_move (new_game 2 3) ((0, 0), (0, 1))))"
proof -
  have "current_player (new_game 2 3) = BLACK" by (simp add: new_game_def)
  then have r: "reachable (snd (make_move (new_game 2 3) ((0, 0), (0, 1))))"
    by (intro reachable.step reachable.start) (simp add: legal_moves_2x3_start)
  have m: "((1, 2), (1, 1)) \<in> set (get_legal_moves (snd (make_move (new_game 2 3) ((0, 0), (0, 1))))
       (current_player (snd (make_move (new_game 2 3) ((0, 0), (0, 1))))))"
    by (simp add: player_2x3_after_first legal_moves_2x3_after_first)
  show ?thesis
    using r m apply_undo_roundtrip[OF r m] by simp
qed

text \<open>
  Claim C7.  When the source cell of a move lies inside the grid and does not hold the
  stone of the player to move, \<open>make_move\<close> raises and catches \<open>ValueError\<close> and leaves the
  board and the player to move as they were (whatever the destination is, in particular
  for every in-bounds move).
\<close>

theorem make_move_rejects_foreign_piece:
  assumes "wf_game s" "in_bounds s (i, j)"
    and "getitem2 (board s) i j \<noteq> Some (current_player s)"
  shows "make_move s ((i, j), (ni, nj)) = (Some ValueError, s)"
proof -
  from assms(2) have b: "0 \<le> i" "i < rows s" "0 \<le> j" "j < cols s"
    by (simp_all add: in_bounds_def)
  from getitem2_wf[OF assms(1) b] assms(3) show ?thesis
    by (simp add: make_move_def)
qed

theorem make_move_rejects_foreign_piece_witness:
  "wf_game (new_game 2 2) \<and> in_bounds (new_game 2 2) (0, 1) \<and>
   getitem2 (board (new_game 2 2)) 0 1 \<noteq> Some (current_player (new_game 2 2)) \<and>
   make_move (new_game 2 2) ((0, 1), (0, 0)) = (Some ValueError, new_game 2 2)"
proof -
  have w: "wf_game (new_game 2 2)" by (rule wf_new_game)
  have b: "in_bounds (new_game 2 2) (0, 1)" by (simp add: in_bounds_def new_game_def)
  have g: "getitem2 (board (new_game 2 2)) 0 1 \<noteq> Some (current_player (new_game 2 2))"
    by code_simp
  show ?thesis
    using w b g make_move_rejects_foreign_piece[OF w b g, of 0 0] by simp
qed

text \<open>
  Claim C8.  For every game state and every legal move of the player to move, the number
  of stones (\<open>BLACK\<close> cells plus \<open>WHITE\<close> cells) after \<open>make_move\<close> is the number before
  minus one, and after the matching \<open>undo_move\<close> it is the original number again.
\<close>

theorem stone_count_make_undo:
  assumes "wf_game s" "m \<in> set (get_legal_moves s (current_player s))"
  shows "stone_count (snd (make_move s m)) = stone_count s - 1 \<and>
         stone_count (snd (undo_move (snd (make_move s m)) m)) = stone_count s"
  using stone_count_moved[OF assms] undo_move_legal[OF assms] by simp

theorem stone_count_make_undo_witness:
  "wf_game (new_game 2 3) \<and>
   ((0, 0), (0, 1)) \<in> set (get_legal_moves (new_game 2 3) (current_player (new_game 2 3))) \<and>
   stone_count (new_game 2 3) = 6 \<and>
   stone_count (snd (make_move (new_game 2 3) ((0, 0), (0, 1)))) = 5 \<and>
   stone_count (snd (undo_move (snd (make_move (new_game 2 3) ((0, 0), (0, 1))))
      ((0, 0), (0, 1)))) = 6"
proof -
  have w: "wf_game (new_game 2 3)" by (rule wf_new_game)
  have "current_player (new_game 2 3) = BLACK" by (simp add: new_game_def)
  then have m: "((0, 0), (0, 1)) \<in>
      set (get_legal_moves (new_game 2 3) (current_player (new_game 2 3)))"
    by (simp add: legal_moves_2x3_start)
  have c: "stone_count (new_game 2 3) = 6" by code_simp
  show ?thesis
    using w m c stone_count_make_undo[OF w m] by simp
qed

text \<open>
  Claim C4 says that \<open>make_move\<close> rejects every move with a coordinate outside
  \<open>[0, rows) \<times> [0, cols)\<close> and leaves the state unchanged.  The source relies on
  \<open>IndexError\<close> for this, and Python subscripts accept negative indices: on the initial
  2 x 2 board the move \<open>((0, 0), (-1, 0))\<close> is carried out on row \<open>1\<close>, no error is
  reported, and the board and the player to move change.
\<close>

theorem make_move_negative_index:
  "make_move (new_game 2 2) ((0, 0), (- 1, 0)) =
     (None, \<lparr>rows = 2, cols = 2, board = [[EMPTY, WHITE], [BLACK, BLACK]],
             current_player = WHITE\<rparr>)"
  by code_simp

lemma py_index_None_iff: "py_index n i = None \<longleftrightarrow> i < - int n \<or> int n \<le> i"
  by (auto simp: py_index_def)

lemma py_index_Some_less: "py_index n i = Some k \<Longrightarrow> k < n"
  by (auto simp: py_index_def split: if_splits)

lemma py_index_nat_None_iff: "py_index (nat n) i = None \<longleftrightarrow> i < - n \<or> n \<le> i"
  by (cases "0 \<le> n") (auto simp: py_index_None_iff)

lemma getitem2_None_iff:
  assumes "wf_game s"
  shows "getitem2 (board s) i j = None \<longleftrightarrow>
    i < - rows s \<or> rows s \<le> i \<or> j < - cols s \<or> cols s \<le> j"
proof (cases "py_index (length (board s)) i")
  case None
  moreover from None have "i < - rows s \<or> rows s \<le> i"
    using assms by (simp add: wf_game_def py_index_nat_None_iff)
  ultimately show ?thesis
    by (auto simp: getitem2_def)
next
  case (Some k)
  then have "k < length (board s)" by (rule py_index_Some_less)
  then have len: "length (board s ! k) = nat (cols s)"
    using assms by (simp add: wf_game_def list_all_length)
  have "py_index (nat (rows s)) i \<noteq> None"
    using Some assms by (simp add: wf_game_def)
  then have "\<not> (i < - rows s \<or> rows s \<le> i)"
    by (simp add: py_index_nat_None_iff)
  then show ?thesis
    using Some py_index_nat_None_iff[of "cols s" j]
    by (auto simp: getitem2_def len split: option.splits)
qed

lemma setitem2_None_iff: "setitem2 b i j v = None \<longleftrightarrow> getitem2 b i j = None"
  by (simp add: setitem2_def getitem2_def split: option.splits)

text \<open>
  What does hold: a move with a coordinate below \<open>-rows\<close> (\<open>-cols\<close>) or from \<open>rows\<close>
  (\<open>cols\<close>) upwards is rejected with an error and changes nothing.
\<close>

lemma make_move_rejects_beyond:
  assumes "wf_game s"
    and "i < - rows s \<or> rows s \<le> i \<or> j < - cols s \<or> cols s \<le> j \<or>
         ni < - rows s \<or> rows s \<le> ni \<or> nj < - cols s \<or> cols s \<le> nj"
  shows "\<exists>e. make_move s ((i, j), (ni, nj)) = (Some e, s)"
proof (cases "getitem2 (board s) i j")
  case None
  then show ?thesis by (simp add: make_move_def)
next
  case (Some c)
  then have "getitem2 (board s) ni nj = None"
    using assms(2) getitem2_None_iff[OF assms(1), of i j] getitem2_None_iff[OF assms(1), of ni nj]
    by auto
  then have "setitem2 (board s) ni nj c = None" by (simp add: setitem2_None_iff)
  then show ?thesis using Some by (auto simp: make_move_def)
qed

subsection \<open>Move generation\<close>

lemma sorted_wrt_concat_map:
  assumes "sorted_wrt Q xs"
    and "\<And>x. x \<in> set xs \<Longrightarrow> sorted_wrt R (f x)"
    and "\<And>x y a b. Q x y \<Longrightarrow> x \<in> set xs \<Longrightarrow> y \<in> set xs \<Longrightarrow>
           a \<in> set (f x) \<Longrightarrow> b \<in> set (f y) \<Longrightarrow> R a b"
  shows "sorted_wrt R (concat (map f xs))"
  using assms
proof (induction xs)
  case Nil
  then show ?case by simp
next
  case (Cons x xs)
  have "sorted_wrt R (concat (map f xs))"
    using Cons.prems by (intro Cons.IH) auto
  moreover have "sorted_wrt R (f x)" using Cons.prems(2) by simp
  moreover have "\<forall>a\<in>set (f x). \<forall>b\<in>set (concat (map f xs)). R a b"
    using Cons.prems(1,3) by fastforce
  ultimately show ?case by (simp add: sorted_wrt_append)
qed

lemma sorted_py_range: "sorted_wrt (<) (py_range n)"
  unfolding py_range_def using strict_sorted_iff[of "[0..n - 1]"] by simp

lemma get_legal_moves_cell_moves:
  "get_legal_moves s player =
     concat (map (\<lambda>i. concat (map (\<lambda>j.
        if cell_at (board s) i j = player then cell_moves s player i j else [])
       (py_range (cols s)))) (py_range (rows s)))"
  by (simp only: get_legal_moves_def cell_moves_def)

lemma cell_moves_source: "m \<in> set (cell_moves s player i j) \<Longrightarrow> fst m = (i, j)"
  by (auto simp: cell_moves_def)

lemma sorted_cell_moves: "sorted_wrt move_before (cell_moves s player i j)"
  by (auto simp: cell_moves_def DIRECTIONS_def move_before_def dir_rank_def)

lemma sorted_get_legal_moves: "sorted_wrt move_before (get_legal_moves s player)"
  unfolding get_legal_moves_cell_moves
proof (intro sorted_wrt_concat_map[where Q = "(<)"] sorted_py_range, goal_cases)
  case (1 i)
  then show ?case by (simp add: sorted_cell_moves)
next
  case (2 i j a b)
  then show ?case
    by (auto simp: move_before_def split: if_splits dest!: cell_moves_source)
next
  case (3 i i' a b)
  then show ?case
    by (auto simp: move_before_def split: if_splits dest!: cell_moves_source)
qed

lemma is_legal_iff_member:
  assumes "player = BLACK \<or> player = WHITE"
  shows "m \<in> set (get_legal_moves s player) \<longleftrightarrow> is_legal s player m"
proof -
  obtain i j ni nj where m: "m = ((i, j), (ni, nj))" by (metis prod.exhaust)
  have o: "\<And>c. c \<noteq> player \<and> c \<noteq> EMPTY \<longleftrightarrow> c = opponent player"
    using assms by (case_tac c) (auto simp: opponent_def)
  have d: "(ni = i - 1 \<and> nj = j \<or> ni = i + 1 \<and> nj = j \<or>
      ni = i \<and> nj = j - 1 \<or> ni = i \<and> nj = j + 1) \<longleftrightarrow> \<bar>ni - i\<bar> + \<bar>nj - j\<bar> = 1"
    by auto
  show ?thesis
    unfolding m legal_move_iff d is_legal_def in_bounds_def using o by auto
qed

text \<open>
  Claim C6.  For every board and for \<open>player\<close> \<open>BLACK\<close> or \<open>WHITE\<close>, the moves
  \<open>get_legal_moves(player)\<close> returns are exactly the pairs \<open>(from, to)\<close> where \<open>from\<close> holds a
  stone of \<open>player\<close>, \<open>to\<close> is an orthogonal neighbour of \<open>from\<close> inside the grid, and \<open>to\<close>
  holds a stone of the opponent; the list is in row-major order of the source cells and,
  for one source cell, in the order up, down, left, right (so no move occurs twice).
\<close>

theorem get_legal_moves_sound_complete_ordered:
  assumes "player = BLACK \<or> player = WHITE"
  shows "set (get_legal_moves s player) = {m. is_legal s player m} \<and>
         sorted_wrt move_before (get_legal_moves s player)"
  using is_legal_iff_member[OF assms] sorted_get_legal_moves by auto

theorem get_legal_moves_sound_complete_ordered_witness:
  "set (get_legal_moves (new_game 2 3) BLACK) = {m. is_legal (new_game 2 3) BLACK m} \<and>
   sorted_wrt move_before (get_legal_moves (new_game 2 3) BLACK) \<and>
   get_legal_moves (new_game 2 3) BLACK =
     [((0, 0), (1, 0)), ((0, 0), (0, 1)), ((0, 2), (1, 2)), ((0, 2), (0, 1)),
      ((1, 1), (0, 1)), ((1, 1), (1, 0)), ((1, 1), (1, 2))]"
  using get_legal_moves_sound_complete_ordered[of BLACK "new_game 2 3"]
    legal_moves_2x3_start
  by simp

subsection \<open>Termination of the search\<close>

lemma legal_move_reverse:
  assumes "((i, j), (ni, nj)) \<in> set (get_legal_moves s p)" "p = BLACK \<or> p = WHITE"
  shows "((ni, nj), (i, j)) \<in> set (get_legal_moves s (opponent p))"
proof -
  have "cell_at (board s) ni nj = opponent p"
    using assms by (cases "cell_at (board s) ni nj") (auto simp: legal_move_iff opponent_def)
  then show ?thesis
    using assms by (auto simp: legal_move_iff opponent_def)
qed

lemma some_move_reverse:
  assumes "get_legal_moves s p \<noteq> []" "p = BLACK \<or> p = WHITE"
  shows "get_legal_moves s (opponent p) \<noteq> []"
proof -
  from assms(1) obtain m where m: "m \<in> set (get_legal_moves s p)"
    by (cases "get_legal_moves s p") auto
  obtain i j ni nj where "m = ((i, j), (ni, nj))"
    by (metis prod.exhaust)
  with m have "((i, j), (ni, nj)) \<in> set (get_legal_moves s p)" by simp
  from legal_move_reverse[OF this assms(2)] show ?thesis by auto
qed

lemma no_moves_symmetric:
  "get_legal_moves s BLACK = [] \<longleftrightarrow> get_legal_moves s WHITE = []"
  using some_move_reverse[of s BLACK] some_move_reverse[of s WHITE]
  by (auto simp: opponent_def)

lemma is_terminal_iff:
  assumes "p = BLACK \<or> p = WHITE"
  shows "is_terminal s \<longleftrightarrow> get_legal_moves s p = []"
  using assms no_moves_symmetric[of s] by (auto simp: is_terminal_def)

lemma countOf_nonneg: "0 \<le> countOf b c"
  by (auto simp: countOf_def intro!: sum_list_nonneg)

lemma stone_count_nonneg: "0 \<le> stone_count s"
  by (simp add: stone_count_def countOf_nonneg)

lemma max_loop_total:
  assumes "wf_game s"
    and "set ms \<subseteq> set (get_legal_moves s (current_player s))"
    and "\<And>m a b. m \<in> set ms \<Longrightarrow>
           \<exists>v. rec (snd (make_move s m)) a b = Some (Fin v, snd (make_move s m))"
    and "me \<noteq> PosInf"
  shows "\<exists>r. max_loop rec ms s me a b = Some (r, s) \<and> r \<noteq> PosInf \<and>
           (ms \<noteq> [] \<or> me \<noteq> NegInf \<longrightarrow> r \<noteq> NegInf)"
  using assms(2-4)
proof (induction ms arbitrary: me a)
  case Nil
  then show ?case by simp
next
  case (Cons m ms)
  from Cons.prems(1) have legal: "m \<in> set (get_legal_moves s (current_player s))" by simp
  obtain v where v: "rec (snd (make_move s m)) a b = Some (Fin v, snd (make_move s m))"
    using Cons.prems(2)[of m a b] by auto
  have u: "snd (undo_move (snd (make_move s m)) m) = s"
    by (simp add: undo_move_legal[OF assms(1) legal])
  have me': "max me (Fin v) \<noteq> PosInf" "max me (Fin v) \<noteq> NegInf"
    using Cons.prems(3) by (cases me; simp add: max_def)+
  show ?case
  proof (cases "b \<le> max a (Fin v)")
    case True
    then show ?thesis using me' by (simp add: v u)
  next
    case False
    have "\<exists>r. max_loop rec ms s (max me (Fin v)) (max a (Fin v)) b = Some (r, s) \<and>
        r \<noteq> PosInf \<and> (ms \<noteq> [] \<or> max me (Fin v) \<noteq> NegInf \<longrightarrow> r \<noteq> NegInf)"
      using Cons.prems me' by (intro Cons.IH) auto
    then obtain r where r: "max_loop rec ms s (max me (Fin v)) (max a (Fin v)) b = Some (r, s)"
      "r \<noteq> PosInf" "r \<noteq> NegInf" using me' by auto
    then show ?thesis using False by (simp add: v u)
  qed
qed

lemma min_loop_total:
  assumes "wf_game s"
    and "set ms \<subseteq> set (get_legal_moves s (current_player s))"
    and "\<And>m a b. m \<in> set ms \<Longrightarrow>
           \<exists>v. rec (snd (make_move s m)) a b = Some (Fin v, snd (make_move s m))"
    and "me \<noteq> NegInf"
  shows "\<exists>r. min_loop rec ms s me a b = Some (r, s) \<and> r \<noteq> NegInf \<and>
           (ms \<noteq> [] \<or> me \<noteq> PosInf \<longrightarrow> r \<noteq> PosInf)"
  using assms(2-4)
proof (induction ms arbitrary: me b)
  case Nil
  then show ?case by simp
next
  case (Cons m ms)
  from Cons.prems(1) have legal: "m \<in> set (get_legal_moves s (current_player s))" by simp
  obtain v where v: "rec (snd (make_move s m)) a b = Some (Fin v, snd (make_move s m))"
    using Cons.prems(2)[of m a b] by auto
  have u: "snd (undo_move (snd (make_move s m)) m) = s"
    by (simp add: undo_move_legal[OF assms(1) legal])
  have me': "min me (Fin v) \<noteq> PosInf" "min me (Fin v) \<noteq> NegInf"
    using Cons.prems(3) by (cases me; simp add: min_def)+
  show ?case
  proof (cases "min b (Fin v) \<le> a")
    case True
    then show ?thesis using me' by (simp add: v u)
  next
    case False
    have "\<exists>r. min_loop rec ms s (min me (Fin v)) a (min b (Fin v)) = Some (r, s) \<and>
        r \<noteq> NegInf \<and> (ms \<noteq> [] \<or> min me (Fin v) \<noteq> PosInf \<longrightarrow> r \<noteq> PosInf)"
      using Cons.prems me' by (intro Cons.IH) auto
    then obtain r where r: "min_loop rec ms s (min me (Fin v)) a (min b (Fin v)) = Some (r, s)"
      "r \<noteq> PosInf" "r \<noteq> NegInf" using me' by auto
    then show ?thesis using False by (simp add: v u)
  qed
qed

lemma score_cases_fin: "r \<noteq> NegInf \<Longrightarrow> r \<noteq> PosInf \<Longrightarrow> \<exists>v. r = Fin v"
  by (cases r) auto

lemma alpha_beta_total:
  assumes "wf_game s"
  shows "\<exists>v. alpha_beta s depth alpha beta mx = Some (Fin v, s)"
  using assms
proof (induction "nat (stone_count s)" arbitrary: s depth alpha beta mx rule: less_induct)
  case less
  note wf = \<open>wf_game s\<close>
  show ?case
  proof (cases "depth = 0 \<or> is_terminal s")
    case True
    then show ?thesis by (subst alpha_beta.simps) auto
  next
    case False
    let ?ms = "get_legal_moves s (current_player s)"
    have p: "current_player s = BLACK \<or> current_player s = WHITE"
      using wf by (simp add: wf_game_def)
    have ne: "?ms \<noteq> []"
      using False is_terminal_iff[OF p, of s] by simp
    have child: "\<exists>v. alpha_beta (snd (make_move s m)) (depth - 1) a b mx' =
        Some (Fin v, snd (make_move s m))" if "m \<in> set ?ms" for m a b mx'
    proof (rule less.hyps)
      show "wf_game (snd (make_move s m))" by (rule wf_game_make_move[OF wf that])
      show "nat (stone_count (snd (make_move s m))) < nat (stone_count s)"
        using stone_count_moved[OF wf that] stone_count_nonneg[of "snd (make_move s m)"]
        by simp
    qed
    show ?thesis
    proof (cases mx)
      case True
      obtain r where "max_loop (\<lambda>s' a b. alpha_beta s' (depth - 1) a b False) ?ms s NegInf
          alpha beta = Some (r, s)" "r \<noteq> PosInf" "r \<noteq> NegInf"
        using max_loop_total[OF wf subset_refl, of "\<lambda>s' a b. alpha_beta s' (depth - 1) a b False"
            NegInf alpha beta] child ne by auto
      then show ?thesis
        using False True score_cases_fin[of r] by (subst alpha_beta.simps) auto
    next
      case mn: False
      obtain r where "min_loop (\<lambda>s' a b. alpha_beta s' (depth - 1) a b True) ?ms s PosInf
          alpha beta = Some (r, s)" "r \<noteq> PosInf" "r \<noteq> NegInf"
        using min_loop_total[OF wf subset_refl, of "\<lambda>s' a b. alpha_beta s' (depth - 1) a b True"
            PosInf alpha beta] child ne by auto
      then show ?thesis
        using False mn score_cases_fin[of r] by (subst alpha_beta.simps) auto
    qed
  qed
qed

subsection \<open>Move selection and the empty move list\<close>

lemma ai_loop_result:
  assumes "wf_game s"
    and "set ms \<subseteq> set (get_legal_moves s (current_player s))"
    and "\<And>m. m \<in> set ms \<Longrightarrow>
           \<exists>v. rec (snd (make_move s m)) NegInf PosInf = Some (Fin v, snd (make_move s m))"
    and "bm \<noteq> None \<or> current_player s = BLACK \<and> bv = NegInf \<or>
         current_player s = WHITE \<and> bv = PosInf"
  shows "\<exists>mv. ai_loop rec ms s bm bv = Some (mv, s) \<and>
           (mv = bm \<or> mv \<in> Some ` set ms) \<and> (ms \<noteq> [] \<or> bm \<noteq> None \<longrightarrow> mv \<noteq> None)"
  using assms(2-4)
proof (induction ms arbitrary: bm bv)
  case Nil
  then show ?case by simp
next
  case (Cons m ms)
  from Cons.prems(1) have legal: "m \<in> set (get_legal_moves s (current_player s))" by simp
  obtain v where v: "rec (snd (make_move s m)) NegInf PosInf = Some (Fin v, snd (make_move s m))"
    using Cons.prems(2)[of m] by auto
  have u: "snd (undo_move (snd (make_move s m)) m) = s"
    by (simp add: undo_move_legal[OF assms(1) legal])
  have sub: "set ms \<subseteq> set (get_legal_moves s (current_player s))"
    using Cons.prems(1) by simp
  have rec': "\<And>m. m \<in> set ms \<Longrightarrow>
      \<exists>v. rec (snd (make_move s m)) NegInf PosInf = Some (Fin v, snd (make_move s m))"
    using Cons.prems(2) by simp
  have inf: "NegInf < Fin v" "Fin v < PosInf"
    by (simp_all add: less_score_def)
  consider (black) "current_player s = BLACK \<and> bv < Fin v"
    | (white) "\<not> (current_player s = BLACK \<and> bv < Fin v)" "current_player s = WHITE \<and> Fin v < bv"
    | (keep) "\<not> (current_player s = BLACK \<and> bv < Fin v)" "\<not> (current_player s = WHITE \<and> Fin v < bv)"
    by blast
  then show ?case
  proof cases
    case black
    from Cons.IH[OF sub rec', of "Some m" "Fin v"]
    obtain mv where "ai_loop rec ms s (Some m) (Fin v) = Some (mv, s)"
      "mv = Some m \<or> mv \<in> Some ` set ms" "mv \<noteq> None" by auto
    then show ?thesis using black by (auto simp: v u)
  next
    case white
    from Cons.IH[OF sub rec', of "Some m" "Fin v"]
    obtain mv where "ai_loop rec ms s (Some m) (Fin v) = Some (mv, s)"
      "mv = Some m \<or> mv \<in> Some ` set ms" "mv \<noteq> None" by auto
    then show ?thesis using white by (auto simp: v u)
  next
    case keep
    have bm: "bm \<noteq> None"
      using Cons.prems(3) keep inf by auto
    from Cons.IH[OF sub rec', of bm bv] bm
    obtain mv where "ai_loop rec ms s bm bv = Some (mv, s)"
      "mv = bm \<or> mv \<in> Some ` set ms" "mv \<noteq> None" by auto
    then show ?thesis using keep by (auto simp: v u)
  qed
qed

lemma ai_move_total:
  assumes "wf_game s"
  shows "\<exists>mv. ai_move s depth = Some (mv, s) \<and>
           (mv = None \<longleftrightarrow> get_legal_moves s (current_player s) = []) \<and>
           (mv = None \<or> mv \<in> Some ` set (get_legal_moves s (current_player s)))"
proof -
  let ?rec = "\<lambda>s' a b. alpha_beta s' (depth - 1) a b False"
  let ?ms = "get_legal_moves s (current_player s)"
  have p: "current_player s = BLACK \<or> current_player s = WHITE"
    using assms by (simp add: wf_game_def)
  have "\<exists>mv. ai_loop ?rec ?ms s None (if current_player s = BLACK then NegInf else PosInf) =
      Some (mv, s) \<and> (mv = None \<or> mv \<in> Some ` set ?ms) \<and>
      (?ms \<noteq> [] \<or> (None :: move option) \<noteq> None \<longrightarrow> mv \<noteq> None)"
  proof (rule ai_loop_result[OF assms subset_refl])
    fix m assume "m \<in> set ?ms"
    then show "\<exists>v. ?rec (snd (make_move s m)) NegInf PosInf = Some (Fin v, snd (make_move s m))"
      using alpha_beta_total[OF wf_game_make_move[OF assms]] by simp
  next
    show "None \<noteq> None \<or>
      current_player s = BLACK \<and> (if current_player s = BLACK then NegInf else PosInf) = NegInf \<or>
      current_player s = WHITE \<and> (if current_player s = BLACK then NegInf else PosInf) = PosInf"
      using p by auto
  qed
  then show ?thesis
    unfolding ai_move_def by auto
qed

text \<open>
  Claim C3.  For every game state and every depth (in particular every depth \<open>\<ge> 1\<close>),
  \<open>ai_move\<close> returns, leaves the object as it found it, and returns \<open>None\<close> if and only if
  \<open>get_legal_moves(current_player)\<close> is empty; a move it returns is one of the legal moves
  of the player to move.
\<close>

theorem ai_move_none_iff_no_moves:
  assumes "wf_game s"
  shows "\<exists>mv. ai_move s depth = Some (mv, s) \<and>
           (mv = None \<longleftrightarrow> get_legal_moves s (current_player s) = []) \<and>
           (\<forall>m. mv = Some m \<longrightarrow> m \<in> set (get_legal_moves s (current_player s)))"
  using ai_move_total[OF assms, of depth] by auto

lemma ai_move_2x2:
  "ai_move (new_game 2 2) 3 = Some (Some ((0, 0), (1, 0)), new_game 2 2)"
  by code_simp

lemma ai_move_stuck:
  "ai_move \<lparr>rows = 2, cols = 2, board = [[BLACK, EMPTY], [EMPTY, WHITE]],
            current_player = BLACK\<rparr> 3 =
   Some (None, \<lparr>rows = 2, cols = 2, board = [[BLACK, EMPTY], [EMPTY, WHITE]],
                current_player = BLACK\<rparr>)"
  by code_simp

theorem ai_move_none_iff_no_moves_witness:
  "wf_game (new_game 2 2) \<and>
   ai_move (new_game 2 2) 3 = Some (Some ((0, 0), (1, 0)), new_game 2 2) \<and>
   ((0, 0), (1, 0)) \<in> set (get_legal_moves (new_game 2 2) (current_player (new_game 2 2))) \<and>
   wf_game \<lparr>rows = 2, cols = 2, board = [[BLACK, EMPTY], [EMPTY, WHITE]],
            current_player = BLACK\<rparr> \<and>
   ai_move \<lparr>rows = 2, cols = 2, board = [[BLACK, EMPTY], [EMPTY, WHITE]],
            current_player = BLACK\<rparr> 3 =
     Some (None, \<lparr>rows = 2, cols = 2, board = [[BLACK, EMPTY], [EMPTY, WHITE]],
                  current_player = BLACK\<rparr>) \<and>
   get_legal_moves \<lparr>rows = 2, cols = 2, board = [[BLACK, EMPTY], [EMPTY, WHITE]],
                    current_player = BLACK\<rparr> BLACK = []"
proof -
  let ?s = "\<lparr>rows = 2, cols = 2, board = [[BLACK, EMPTY], [EMPTY, WHITE]],
            current_player = BLACK\<rparr>"
  have w: "wf_game ?s" by (simp add: wf_game_def)
  show ?thesis
    using ai_move_none_iff_no_moves[OF wf_new_game, of 2 2 3] ai_move_2x2 wf_new_game[of 2 2]
      ai_move_none_iff_no_moves[OF w, of 3] ai_move_stuck w
    by auto
qed

text \<open>
  The empty move list inside the search.  When \<open>depth\<close> is not \<open>0\<close>, the position is
  not terminal and \<open>get_legal_moves(current_player)\<close> is empty, the loops of
  \<open>alpha_beta\<close> would return their initial accumulators.  With \<open>BLACK\<close> or \<open>WHITE\<close> to
  move this case does not arise: a legal move of one colour read backwards is a legal
  move of the other, so a position where the player to move has no move is terminal,
  and \<open>alpha_beta\<close> returns a finite value on every game object (\<open>alpha_beta_total\<close>).
\<close>

lemma fallthrough_needs_foreign_player:
  assumes "current_player s = BLACK \<or> current_player s = WHITE" "\<not> is_terminal s"
  shows "get_legal_moves s (current_player s) \<noteq> []"
  using assms is_terminal_iff[OF assms(1), of s] by simp

subsection \<open>Alpha-beta against exhaustive minimax\<close>

lemma NegInf_least: "NegInf \<le> (x::score)"
  by simp

lemma PosInf_greatest: "(x::score) \<le> PosInf"
  by (cases x) simp_all

lemma le_NegInf_iff: "x \<le> NegInf \<longleftrightarrow> x = NegInf"
  by (cases x) simp_all

lemma PosInf_le_iff: "PosInf \<le> x \<longleftrightarrow> x = PosInf"
  by (cases x) simp_all

lemma fail_soft_full_window: "fail_soft NegInf PosInf v r \<Longrightarrow> r = v"
proof -
  assume f: "fail_soft NegInf PosInf v r"
  consider "r = NegInf" | "r = PosInf" | "NegInf < r" "r < PosInf"
    using NegInf_least[of r] PosInf_greatest[of r] by (auto simp: less_le)
  then show ?thesis
  proof cases
    case 1
    with f have "v \<le> NegInf" by (simp add: fail_soft_def)
    with 1 show ?thesis using NegInf_least[of v] by simp
  next
    case 2
    with f have "PosInf \<le> v" by (simp add: fail_soft_def)
    with 2 show ?thesis using PosInf_greatest[of v] by simp
  next
    case 3
    with f show ?thesis by (simp add: fail_soft_def)
  qed
qed

lemma fail_soft_refl: "fail_soft a b v v"
  by (simp add: fail_soft_def)

lemma fail_soft_low: "r \<le> a \<Longrightarrow> a < b \<Longrightarrow> v \<le> r \<Longrightarrow> fail_soft a b v r"
  by (auto simp: fail_soft_def)

lemma fail_soft_high: "b \<le> r \<Longrightarrow> a < b \<Longrightarrow> r \<le> v \<Longrightarrow> fail_soft a b v r"
  by (auto simp: fail_soft_def)

lemma max_step_cut:
  fixes a0 :: "'a::linorder"
  assumes "a = max a0 me" "a < b"
    and "(e \<le> a \<longrightarrow> v \<le> e) \<and> (a < e \<and> e < b \<longrightarrow> e = v) \<and> (b \<le> e \<longrightarrow> e \<le> v)"
    and "b \<le> max a e"
  shows "b \<le> max me e \<and> max me e \<le> max (max D v) V"
  using assms by (auto simp: max_def split: if_splits)

lemma max_step_go:
  fixes a0 :: "'a::linorder"
  assumes "a = max a0 me" "a < b"
    and "(me \<le> a0 \<longrightarrow> D \<le> me) \<and> (a0 < me \<longrightarrow> me = D)"
    and "(e \<le> a \<longrightarrow> v \<le> e) \<and> (a < e \<and> e < b \<longrightarrow> e = v) \<and> (b \<le> e \<longrightarrow> e \<le> v)"
    and "\<not> b \<le> max a e"
  shows "max a e = max a0 (max me e) \<and> max a e < b \<and>
    (max me e \<le> a0 \<longrightarrow> max D v \<le> max me e) \<and> (a0 < max me e \<longrightarrow> max me e = max D v)"
  using assms by (auto simp: max_def split: if_splits)

lemma min_step_cut:
  fixes b0 :: "'a::linorder"
  assumes "b = min b0 me" "a < b"
    and "(e \<le> a \<longrightarrow> v \<le> e) \<and> (a < e \<and> e < b \<longrightarrow> e = v) \<and> (b \<le> e \<longrightarrow> e \<le> v)"
    and "min b e \<le> a"
  shows "min me e \<le> a \<and> min (min D v) V \<le> min me e"
  using assms by (auto simp: min_def split: if_splits)

lemma min_step_go:
  fixes b0 :: "'a::linorder"
  assumes "b = min b0 me" "a < b"
    and "(b0 \<le> me \<longrightarrow> me \<le> D) \<and> (me < b0 \<longrightarrow> me = D)"
    and "(e \<le> a \<longrightarrow> v \<le> e) \<and> (a < e \<and> e < b \<longrightarrow> e = v) \<and> (b \<le> e \<longrightarrow> e \<le> v)"
    and "\<not> min b e \<le> a"
  shows "min b e = min b0 (min me e) \<and> a < min b e \<and>
    (b0 \<le> min me e \<longrightarrow> min me e \<le> min D v) \<and> (min me e < b0 \<longrightarrow> min me e = min D v)"
  using assms by (auto simp: min_def split: if_splits)

lemma max_loop_fail_soft:
  assumes "wf_game s"
    and "set ms \<subseteq> set (get_legal_moves s (current_player s))"
    and "\<And>m a b. m \<in> set ms \<Longrightarrow> a < b \<Longrightarrow>
           \<exists>e. rec (snd (make_move s m)) a b = Some (e, snd (make_move s m)) \<and>
               fail_soft a b (val m) e"
    and "a = max a0 me" "a < b"
    and "(me \<le> a0 \<longrightarrow> D \<le> me) \<and> (a0 < me \<longrightarrow> me = D)"
  shows "\<exists>r. max_loop rec ms s me a b = Some (r, s) \<and>
           fail_soft a0 b (max D (maxs (map val ms))) r"
  using assms(2-6)
proof (induction ms arbitrary: me a D)
  case Nil
  have "max D NegInf = D" by (simp add: max_def le_NegInf_iff)
  then show ?case
    using Nil.prems(3-5) by (auto simp: fail_soft_def max_def split: if_splits)
next
  case (Cons m ms)
  from Cons.prems(1) have legal: "m \<in> set (get_legal_moves s (current_player s))" by simp
  obtain e where e: "rec (snd (make_move s m)) a b = Some (e, snd (make_move s m))"
    and fs: "fail_soft a b (val m) e"
    using Cons.prems(2)[of m a b] Cons.prems(4) by auto
  have u: "snd (undo_move (snd (make_move s m)) m) = s"
    by (simp add: undo_move_legal[OF assms(1) legal])
  let ?V = "maxs (map val ms)"
  have T: "max D (maxs (map val (m # ms))) = max (max D (val m)) ?V"
    by (simp add: max.assoc)
  show ?case
  proof (cases "b \<le> max a e")
    case True
    have "b \<le> max me e \<and> max me e \<le> max (max D (val m)) ?V"
      using max_step_cut[OF Cons.prems(3,4) fs[unfolded fail_soft_def] True] .
    moreover have "a0 < b" using Cons.prems(3,4) by (auto simp: max_def split: if_splits)
    ultimately have "fail_soft a0 b (max (max D (val m)) ?V) (max me e)"
      by (intro fail_soft_high) simp_all
    then show ?thesis using True unfolding T by (simp add: e u)
  next
    case False
    note g = max_step_go[OF Cons.prems(3,4,5) fs[unfolded fail_soft_def] False]
    have "\<exists>r. max_loop rec ms s (max me e) (max a e) b = Some (r, s) \<and>
        fail_soft a0 b (max (max D (val m)) ?V) r"
    proof (rule Cons.IH)
      show "set ms \<subseteq> set (get_legal_moves s (current_player s))"
        using Cons.prems(1) by simp
      show "\<And>m a b. m \<in> set ms \<Longrightarrow> a < b \<Longrightarrow>
           \<exists>e. rec (snd (make_move s m)) a b = Some (e, snd (make_move s m)) \<and>
               fail_soft a b (val m) e"
        using Cons.prems(2) by simp
      show "max a e = max a0 (max me e)" using g by blast
      show "max a e < b" using g by blast
      show "(max me e \<le> a0 \<longrightarrow> max D (val m) \<le> max me e) \<and>
          (a0 < max me e \<longrightarrow> max me e = max D (val m))"
        using g by blast
    qed
    then show ?thesis using False unfolding T by (simp add: e u)
  qed
qed

lemma min_loop_fail_soft:
  assumes "wf_game s"
    and "set ms \<subseteq> set (get_legal_moves s (current_player s))"
    and "\<And>m a b. m \<in> set ms \<Longrightarrow> a < b \<Longrightarrow>
           \<exists>e. rec (snd (make_move s m)) a b = Some (e, snd (make_move s m)) \<and>
               fail_soft a b (val m) e"
    and "b = min b0 me" "a < b"
    and "(b0 \<le> me \<longrightarrow> me \<le> D) \<and> (me < b0 \<longrightarrow> me = D)"
  shows "\<exists>r. min_loop rec ms s me a b = Some (r, s) \<and>
           fail_soft a b0 (min D (mins (map val ms))) r"
  using assms(2-6)
proof (induction ms arbitrary: me b D)
  case Nil
  have "min D PosInf = D" by (simp add: min_def PosInf_greatest)
  then show ?case
    using Nil.prems(3-5) by (auto simp: fail_soft_def min_def split: if_splits)
next
  case (Cons m ms)
  from Cons.prems(1) have legal: "m \<in> set (get_legal_moves s (current_player s))" by simp
  obtain e where e: "rec (snd (make_move s m)) a b = Some (e, snd (make_move s m))"
    and fs: "fail_soft a b (val m) e"
    using Cons.prems(2)[of m a b] Cons.prems(4) by auto
  have u: "snd (undo_move (snd (make_move s m)) m) = s"
    by (simp add: undo_move_legal[OF assms(1) legal])
  let ?V = "mins (map val ms)"
  have T: "min D (mins (map val (m # ms))) = min (min D (val m)) ?V"
    by (simp add: min.assoc)
  show ?case
  proof (cases "min b e \<le> a")
    case True
    have "min me e \<le> a \<and> min (min D (val m)) ?V \<le> min me e"
      using min_step_cut[OF Cons.prems(3,4) fs[unfolded fail_soft_def] True] .
    moreover have "a < b0" using Cons.prems(3,4) by (auto simp: min_def split: if_splits)
    ultimately have "fail_soft a b0 (min (min D (val m)) ?V) (min me e)"
      by (intro fail_soft_low) simp_all
    then show ?thesis using True unfolding T by (simp add: e u)
  next
    case False
    note g = min_step_go[OF Cons.prems(3,4,5) fs[unfolded fail_soft_def] False]
    have "\<exists>r. min_loop rec ms s (min me e) a (min b e) = Some (r, s) \<and>
        fail_soft a b0 (min (min D (val m)) ?V) r"
    proof (rule Cons.IH)
      show "set ms \<subseteq> set (get_legal_moves s (current_player s))"
        using Cons.prems(1) by simp
      show "\<And>m a b. m \<in> set ms \<Longrightarrow> a < b \<Longrightarrow>
           \<exists>e. rec (snd (make_move s m)) a b = Some (e, snd (make_move s m)) \<and>
               fail_soft a b (val m) e"
        using Cons.prems(2) by simp
      show "min b e = min b0 (min me e)" using g by blast
      show "a < min b e" using g by blast
      show "(b0 \<le> min me e \<longrightarrow> min me e \<le> min D (val m)) \<and>
          (min me e < b0 \<longrightarrow> min me e = min D (val m))"
        using g by blast
    qed
    then show ?thesis using False unfolding T by (simp add: e u)
  qed
qed

lemma alpha_beta_fail_soft:
  assumes "wf_game s" "a < b"
  shows "\<exists>r. alpha_beta s (int n) a b mx = Some (r, s) \<and> fail_soft a b (minimax n s mx) r"
  using assms
proof (induction n arbitrary: s a b mx)
  case 0
  show ?case by (subst alpha_beta.simps) (simp add: fail_soft_refl)
next
  case (Suc n)
  note wf = \<open>wf_game s\<close>
  let ?ms = "get_legal_moves s (current_player s)"
  have d: "int (Suc n) \<noteq> 0" "int (Suc n) - 1 = int n" by simp_all
  show ?case
  proof (cases "is_terminal s")
    case True
    then show ?thesis by (subst alpha_beta.simps) (simp add: fail_soft_refl)
  next
    case False
    have child: "\<exists>e. alpha_beta (snd (make_move s m)) (int n) a' b' mx' =
          Some (e, snd (make_move s m)) \<and>
        fail_soft a' b' (minimax n (snd (make_move s m)) mx') e"
      if "m \<in> set ?ms" "a' < b'" for m a' b' mx'
      using Suc.IH[OF wf_game_make_move[OF wf that(1)] that(2)] .
    show ?thesis
    proof (cases mx)
      case True
      have "\<exists>r. max_loop (\<lambda>s' a b. alpha_beta s' (int n) a b False) ?ms s NegInf a b =
            Some (r, s) \<and>
          fail_soft a b
            (max NegInf (maxs (map (\<lambda>m. minimax n (snd (make_move s m)) False) ?ms))) r"
      proof (rule max_loop_fail_soft[OF wf subset_refl])
        show "a = max a NegInf" by (simp add: max_def le_NegInf_iff)
        show "a < b" by fact
        show "(NegInf \<le> a \<longrightarrow> NegInf \<le> NegInf) \<and> (a < NegInf \<longrightarrow> NegInf = NegInf)"
          by simp
      qed (use child in simp)
      moreover have "max NegInf x = x" for x :: score
        by (simp add: max_def)
      ultimately show ?thesis
        using False True by (subst alpha_beta.simps) (simp add: d)
    next
      case mn: False
      have "\<exists>r. min_loop (\<lambda>s' a b. alpha_beta s' (int n) a b True) ?ms s PosInf a b =
            Some (r, s) \<and>
          fail_soft a b
            (min PosInf (mins (map (\<lambda>m. minimax n (snd (make_move s m)) True) ?ms))) r"
      proof (rule min_loop_fail_soft[OF wf subset_refl])
        show "b = min b PosInf" by (simp add: min_def PosInf_greatest)
        show "a < b" by fact
        show "(b \<le> PosInf \<longrightarrow> PosInf \<le> PosInf) \<and> (PosInf < b \<longrightarrow> PosInf = PosInf)"
          by simp
      qed (use child in simp)
      moreover have "min PosInf x = x" for x :: score
        by (simp add: min_def PosInf_le_iff)
      ultimately show ?thesis
        using False mn by (subst alpha_beta.simps) (simp add: d)
    qed
  qed
qed

text \<open>
  Claim C2.  For every board (small ones such as 2 x 3 included) and every depth
  \<open>0, 1, 2, ...\<close> (in particular the depths up to 4), \<open>alpha_beta(depth, -\<infinity>, +\<infinity>, maximizing)\<close>
  returns, leaves the object unchanged, and its value is the value of exhaustive
  unpruned minimax of the same depth on the same state.
\<close>

theorem alpha_beta_equals_minimax:
  assumes "wf_game s"
  shows "alpha_beta s (int depth) NegInf PosInf maximizing =
           Some (minimax depth s maximizing, s)"
proof -
  have "NegInf < PosInf" by (simp add: less_score_def)
  from alpha_beta_fail_soft[OF assms this, of depth maximizing]
  show ?thesis by (auto dest: fail_soft_full_window)
qed

lemma minimax_2x3_depth4: "minimax 4 (new_game 2 3) True = Fin 0"
  by code_simp

lemma minimax_2x3_depth3: "minimax 3 (new_game 2 3) True = Fin (- 1)"
  by code_simp

theorem alpha_beta_equals_minimax_witness:
  "wf_game (new_game 2 3) \<and>
   alpha_beta (new_game 2 3) 4 NegInf PosInf True = Some (Fin 0, new_game 2 3) \<and>
   minimax 4 (new_game 2 3) True = Fin 0 \<and>
   alpha_beta (new_game 2 3) 3 NegInf PosInf True = Some (Fin (- 1), new_game 2 3) \<and>
   minimax 3 (new_game 2 3) True = Fin (- 1)"
  using alpha_beta_equals_minimax[OF wf_new_game, of 2 3 4 True]
    alpha_beta_equals_minimax[OF wf_new_game, of 2 3 3 True]
    minimax_2x3_depth4 minimax_2x3_depth3 wf_new_game[of 2 3]
  by simp

end
